theory Spec2Isabelle
  imports Main "HOL-Library.Word"
begin

section \<open>The byte-scanning benchmark of fastavro (bytes_speed_compare.pyx)\<close>

text \<open>
  The module compares four ways of counting the byte \<open>'l'\<close> (0x6C) in a byte string:
  indexing a raw \<open>const char*\<close>, a \<open>ByteReader\<close> cursor read one slice at a time, the
  same cursor read one byte at a time, and an \<open>io.BytesIO\<close> stream read one byte at a
  time. The Cython declarations fix the machine types: \<open>char\<close> is a byte, \<open>int\<close> a
  32-bit and \<open>long\<close> a 64-bit two's-complement integer (the LP64 data model of the
  platforms the extension is built for). Arithmetic on them wraps around, as in C
  compiled with signed overflow defined to wrap (\<open>-fwrapv\<close> or
  \<open>-fno-strict-overflow\<close>, the build flags of CPython that extension modules inherit);
  signed comparison reads them with \<open>sint\<close>.
\<close>

subsection \<open>Memory and pointers\<close>

type_synonym byte = "8 word"
type_synonym long = "64 word"
type_synonym cint = "32 word"
type_synonym addr = int
type_synonym memory = "addr \<Rightarrow> byte"

text \<open>
  A \<open>const char*\<close> is an address; \<open>p[i]\<close> is the byte the memory holds at \<open>p + i\<close>.
  The module never writes through a pointer, so the memory is an argument of the
  functions that dereference one and is never returned. \<open>load m a n\<close> are the \<open>n\<close> bytes
  from address \<open>a\<close> on, and \<open>bytes_at m a s\<close> says that the buffer of the Python bytes
  object \<open>s\<close> lies at \<open>a\<close>: what the conversion of \<open>s\<close> to \<open>const char*\<close> hands to the
  C functions.
\<close>

definition load :: "memory \<Rightarrow> addr \<Rightarrow> nat \<Rightarrow> byte list" where
  "load m a n = map (\<lambda>i. m (a + int i)) [0..<n]"

definition bytes_at :: "memory \<Rightarrow> addr \<Rightarrow> byte list \<Rightarrow> bool" where
  "bytes_at m a s \<longleftrightarrow> load m a (length s) = s"

subsection \<open>The cursor\<close>

text \<open>
  \<^verbatim>\<open>cdef struct ByteReader: const char* data; long pos; long length\<close>
  (the field \<open>length\<close> is \<open>length_br\<close> here, \<open>length\<close> being the length of a HOL list).
\<close>

record ByteReader =
  data :: addr
  pos :: long
  length_br :: long

text \<open>
  \<^verbatim>\<open>cdef inline char read_byte(ByteReader* br):
      cdef char c = br.data[br.pos]
      br.pos += 1
      return c\<close>
  The cursor is updated through the pointer: the model returns the byte and the updated
  cursor. There is no comparison of \<open>pos\<close> with \<open>length\<close> and no error exit.
\<close>

definition read_byte :: "memory \<Rightarrow> ByteReader \<Rightarrow> byte \<times> ByteReader" where
  "read_byte m br =
     (let c = m (data br + sint (pos br));
          br1 = br\<lparr>pos := pos br + 1\<rparr>
      in (c, br1))"

text \<open>
  \<^verbatim>\<open>cdef inline const char* read_bytes(ByteReader* br, long num):
      br.pos += num
      return br.data + (br.pos - num)\<close>
  The result is a pointer into the buffer (no bytes are copied and no length is attached),
  together with the updated cursor. Again there is no bounds check and no error exit.
\<close>

definition read_bytes :: "ByteReader \<Rightarrow> long \<Rightarrow> addr \<times> ByteReader" where
  "read_bytes br num =
     (let br1 = br\<lparr>pos := pos br + num\<rparr>
      in (data br1 + sint (pos br1 - num), br1))"

subsection \<open>The four counting loops\<close>

text \<open>
  \<^verbatim>\<open>cdef int count_ls_cdef(const char* s, int s_len):
      cdef int count = 0
      cdef int i = 0
      for i in range(s_len):
          if s[i] == b'l':
              count += 1
      return count\<close>
  Cython compiles the \<open>range\<close> loop over C integers to \<open>for (i = 0; i < s_len; i++)\<close>.
  The loop is the recursive function below, started at \<open>i = 0\<close> and \<open>count = 0\<close>.
\<close>

function count_ls_cdef_loop :: "memory \<Rightarrow> addr \<Rightarrow> cint \<Rightarrow> cint \<Rightarrow> cint \<Rightarrow> cint" where
  "count_ls_cdef_loop m s s_len i count =
     (if i <s s_len
      then count_ls_cdef_loop m s s_len (i + 1)
             (if m (s + sint i) = 0x6C then count + 1 else count)
      else count)"
  by pat_completeness auto
termination
proof (relation "measure (\<lambda>(m, s, s_len, i, count). nat (sint s_len - sint i))", goal_cases)
  case 1
  show ?case by simp
next
  case (2 m s s_len i count)
  then have lt: "sint i < sint s_len" by (simp add: word_sless_alt)
  moreover have "sint s_len < 2 ^ 31" using sint_lt [of s_len] by simp
  moreover have "- (2 ^ 31) \<le> sint i" using sint_ge [of i] by simp
  ultimately have "sint (i + 1) = sint i + 1"
    by (simp add: sint_word_add signed_take_bit_int_eq_self_iff)
  with lt show ?case by simp
qed

definition count_ls_cdef :: "memory \<Rightarrow> addr \<Rightarrow> cint \<Rightarrow> cint" where
  "count_ls_cdef m s s_len = count_ls_cdef_loop m s s_len 0 0"

text \<open>
  \<^verbatim>\<open>cdef int count_ls_bytereader(ByteReader br):
      cdef int count = 0
      while br.pos < br.length:
          if read_bytes(&br, 1)[0] == b'l':
              count += 1
      return count\<close>
  The struct is passed by value: the loop works on the function's own copy. The loop
  function returns the count together with that copy as it stands at \<open>return\<close>.
\<close>

function count_ls_bytereader_loop :: "memory \<Rightarrow> ByteReader \<Rightarrow> cint \<Rightarrow> cint \<times> ByteReader" where
  "count_ls_bytereader_loop m br count =
     (if pos br <s length_br br
      then (let (p, br1) = read_bytes br 1
            in count_ls_bytereader_loop m br1 (if m p = 0x6C then count + 1 else count))
      else (count, br))"
  by pat_completeness auto
termination
proof (relation "measure (\<lambda>(m, br, count). nat (sint (length_br br) - sint (pos br)))", goal_cases)
  case 1
  show ?case by simp
next
  case (2 m br count x p br1)
  then have lt: "sint (pos br) < sint (length_br br)" by (simp add: word_sless_alt)
  moreover have "sint (length_br br) < 2 ^ 63" using sint_lt [of "length_br br"] by simp
  moreover have "- (2 ^ 63) \<le> sint (pos br)" using sint_ge [of "pos br"] by simp
  ultimately have "sint (pos br + 1) = sint (pos br) + 1"
    by (simp add: sint_word_add signed_take_bit_int_eq_self_iff)
  with lt 2 show ?case by (auto simp: read_bytes_def)
qed

definition count_ls_bytereader :: "memory \<Rightarrow> ByteReader \<Rightarrow> cint" where
  "count_ls_bytereader m br = fst (count_ls_bytereader_loop m br 0)"

text \<open>
  \<^verbatim>\<open>cdef int count_ls_bytereader_single(ByteReader br):
      cdef int count = 0
      while br.pos < br.length:
          if read_byte(&br) == b'l':
              count += 1
      return count\<close>
\<close>

function count_ls_bytereader_single_loop ::
  "memory \<Rightarrow> ByteReader \<Rightarrow> cint \<Rightarrow> cint \<times> ByteReader" where
  "count_ls_bytereader_single_loop m br count =
     (if pos br <s length_br br
      then (let (c, br1) = read_byte m br
            in count_ls_bytereader_single_loop m br1 (if c = 0x6C then count + 1 else count))
      else (count, br))"
  by pat_completeness auto
termination
proof (relation "measure (\<lambda>(m, br, count). nat (sint (length_br br) - sint (pos br)))", goal_cases)
  case 1
  show ?case by simp
next
  case (2 m br count x c br1)
  then have lt: "sint (pos br) < sint (length_br br)" by (simp add: word_sless_alt)
  moreover have "sint (length_br br) < 2 ^ 63" using sint_lt [of "length_br br"] by simp
  moreover have "- (2 ^ 63) \<le> sint (pos br)" using sint_ge [of "pos br"] by simp
  ultimately have "sint (pos br + 1) = sint (pos br) + 1"
    by (simp add: sint_word_add signed_take_bit_int_eq_self_iff)
  with lt 2 show ?case by (auto simp: read_byte_def)
qed

definition count_ls_bytereader_single :: "memory \<Rightarrow> ByteReader \<Rightarrow> cint" where
  "count_ls_bytereader_single m br = fst (count_ls_bytereader_single_loop m br 0)"

text \<open>
  The stream variant reads from an \<open>io.BytesIO\<close> object of the Python standard library,
  which is no code of this repository. The model keeps what the loop uses of it: the
  bytes it was created from and the offset of the next read; \<open>read(n)\<close> returns at most
  \<open>n\<close> bytes from the offset on (none at the end of the stream) and moves the offset past
  them.
\<close>

record BytesIO =
  buf :: "byte list"
  offset :: nat

definition BytesIO_read :: "BytesIO \<Rightarrow> nat \<Rightarrow> byte list \<times> BytesIO" where
  "BytesIO_read fo n =
     (let c = take n (drop (offset fo) (buf fo))
      in (c, fo\<lparr>offset := offset fo + length c\<rparr>))"

text \<open>
  \<^verbatim>\<open>cdef int count_ls_bytesio(fo) except? -1:
      cdef bytes c = fo.read(1)
      cdef int count = 0
      while c:
          if <unsigned char>(c[0]) == b'l':
              count += 1
          c = fo.read(1)
      return count\<close>
  The stream object is shared with the caller, so the model returns it with the count.
  (\<open>except? -1\<close> only makes the caller look for a pending exception when the result is
  \<open>-1\<close>; the loop raises none.)
\<close>

function count_ls_bytesio_loop :: "BytesIO \<Rightarrow> byte list \<Rightarrow> cint \<Rightarrow> cint \<times> BytesIO" where
  "count_ls_bytesio_loop fo c count =
     (if c \<noteq> []
      then (let count1 = (if c ! 0 = 0x6C then count + 1 else count);
                (c1, fo1) = BytesIO_read fo 1
            in count_ls_bytesio_loop fo1 c1 count1)
      else (count, fo))"
  by pat_completeness auto
termination
  by (relation "measure (\<lambda>(fo, c, count). length (buf fo) - offset fo + length c)")
     (auto simp: BytesIO_read_def min_def neq_Nil_conv)

definition count_ls_bytesio :: "BytesIO \<Rightarrow> cint \<times> BytesIO" where
  "count_ls_bytesio fo =
     (let (c, fo1) = BytesIO_read fo 1 in count_ls_bytesio_loop fo1 c 0)"

subsection \<open>The cursor of the caller\<close>



subsection \<open>The Python entry points\<close>

text \<open>
  \<^verbatim>\<open>def py_count_ls_cdef(s: bytes):
      return count_ls_cdef(s, len(s))
  def py_count_ls_bytereader(s: bytes):
      return count_ls_bytereader(ByteReader(s, 0, len(s)))
  def py_count_ls_bytereader_single(s: bytes):
      return count_ls_bytereader_single(ByteReader(s, 0, len(s)))
  def py_count_ls_bytesio(s: bytes):
      return count_ls_bytesio(io.BytesIO(s))\<close>
  The bytes object \<open>s\<close> reaches the C functions as the address \<open>a\<close> of its buffer in the
  memory \<open>m\<close> (\<open>bytes_at m a s\<close>). In Cython \<open>len(s)\<close> is a C \<open>Py_ssize_t\<close>; handing it to
  the \<open>int\<close> parameter \<open>s_len\<close> or to the \<open>long\<close> field \<open>length\<close> is a C conversion between
  integer types, which keeps the low 32 or 64 bits and raises nothing. The C \<open>int\<close>
  result goes back to Python as the integer it denotes (\<open>sint\<close>).
\<close>

definition new_ByteReader :: "addr \<Rightarrow> byte list \<Rightarrow> ByteReader" where
  "new_ByteReader a s = \<lparr>data = a, pos = 0, length_br = word_of_nat (length s)\<rparr>"

definition py_count_ls_cdef :: "memory \<Rightarrow> addr \<Rightarrow> byte list \<Rightarrow> int" where
  "py_count_ls_cdef m a s = sint (count_ls_cdef m a (word_of_nat (length s)))"

definition py_count_ls_bytereader :: "memory \<Rightarrow> addr \<Rightarrow> byte list \<Rightarrow> int" where
  "py_count_ls_bytereader m a s = sint (count_ls_bytereader m (new_ByteReader a s))"

definition py_count_ls_bytereader_single :: "memory \<Rightarrow> addr \<Rightarrow> byte list \<Rightarrow> int" where
  "py_count_ls_bytereader_single m a s =
     sint (count_ls_bytereader_single m (new_ByteReader a s))"

definition py_count_ls_bytesio :: "byte list \<Rightarrow> int" where
  "py_count_ls_bytesio s = sint (fst (count_ls_bytesio \<lparr>buf = s, offset = 0\<rparr>))"

subsection \<open>Vocabulary of the specification\<close>

text \<open>
  The specification speaks of the bytes at the positions \<open>[position, length)\<close> of a
  cursor, of their number \<open>remaining = length - position\<close>, of the cursor invariant
  \<open>0 \<le> position \<le> length\<close>, and of calling \<open>read_byte\<close> repeatedly. \<open>repeat_read_byte m n br\<close> makes \<open>n\<close> successive calls of \<open>read_byte\<close> and
  returns the bytes they gave, in order, with the cursor after the last call.
\<close>

definition remaining_bytes :: "memory \<Rightarrow> ByteReader \<Rightarrow> byte list" where
  "remaining_bytes m br =
     load m (data br + sint (pos br)) (nat (sint (length_br br) - sint (pos br)))"


definition well_formed :: "ByteReader \<Rightarrow> bool" where
  "well_formed br \<longleftrightarrow> 0 \<le> sint (pos br) \<and> sint (pos br) \<le> sint (length_br br)"

primrec repeat_read_byte :: "memory \<Rightarrow> nat \<Rightarrow> ByteReader \<Rightarrow> byte list \<times> ByteReader" where
  "repeat_read_byte m 0 br = ([], br)"
| "repeat_read_byte m (Suc n) br =
     (let (c, br1) = read_byte m br;
          (cs, br2) = repeat_read_byte m n br1
      in (c # cs, br2))"

section \<open>Auxiliary facts\<close>

text \<open>
  The loop equations unfold for ever as rewrite rules; they are applied by hand, once per
  step.
\<close>

declare count_ls_cdef_loop.simps [simp del]
declare count_ls_bytereader_loop.simps [simp del]
declare count_ls_bytereader_single_loop.simps [simp del]
declare count_ls_bytesio_loop.simps [simp del]

subsection \<open>Signed arithmetic below a bound\<close>

lemma sint_succ_long: "x <s (y::long) \<Longrightarrow> sint (x + 1) = sint x + 1"
proof -
  assume "x <s y"
  then have "sint x < sint y" by (simp add: word_sless_alt)
  moreover have "sint y < 2 ^ 63" using sint_lt [of y] by simp
  moreover have "- (2 ^ 63) \<le> sint x" using sint_ge [of x] by simp
  ultimately show ?thesis
    by (simp add: sint_word_add signed_take_bit_int_eq_self_iff)
qed

lemma sint_succ_cint: "x <s (y::cint) \<Longrightarrow> sint (x + 1) = sint x + 1"
proof -
  assume "x <s y"
  then have "sint x < sint y" by (simp add: word_sless_alt)
  moreover have "sint y < 2 ^ 31" using sint_lt [of y] by simp
  moreover have "- (2 ^ 31) \<le> sint x" using sint_ge [of x] by simp
  ultimately show ?thesis
    by (simp add: sint_word_add signed_take_bit_int_eq_self_iff)
qed

subsection \<open>Loading bytes\<close>

lemma load_0: "load m a 0 = []"
  by (simp add: load_def)

lemma load_Suc: "load m a (Suc n) = m a # load m (a + 1) n"
proof -
  have "[0..<Suc n] = 0 # map Suc [0..<n]"
    by (simp add: upt_conv_Cons map_Suc_upt del: upt_Suc)
  then show ?thesis
    by (simp add: load_def comp_def add.assoc del: upt_Suc)
qed

lemma length_load: "length (load m a n) = n"
  by (simp add: load_def)

lemma nth_load: "i < n \<Longrightarrow> load m a n ! i = m (a + int i)"
  by (simp add: load_def)

lemma load_bytes_at:
  assumes "bytes_at m a s" and "k + n \<le> length s"
  shows "load m (a + int k) n = take n (drop k s)"
proof (rule nth_equalityI)
  show "length (load m (a + int k) n) = length (take n (drop k s))"
    using assms(2) by (simp add: length_load)
next
  fix i assume "i < length (load m (a + int k) n)"
  then have i: "i < n" by (simp add: length_load)
  with assms(2) have "k + i < length s" by simp
  then have "load m a (length s) ! (k + i) = m (a + int (k + i))"
    by (rule nth_load)
  with assms(1) have "s ! (k + i) = m (a + int k + int i)"
    by (simp add: bytes_at_def add.assoc)
  with i assms(2) show "load m (a + int k) n ! i = take n (drop k s) ! i"
    by (simp add: nth_load)
qed

subsection \<open>The cursor loops in closed form\<close>

lemma remaining_bytes_step:
  assumes "pos br <s length_br br"
  shows "remaining_bytes m br =
           m (data br + sint (pos br)) # remaining_bytes m (br\<lparr>pos := pos br + 1\<rparr>)"
proof -
  from assms have lt: "sint (pos br) < sint (length_br br)"
    by (simp add: word_sless_alt)
  then have "nat (sint (length_br br) - sint (pos br)) =
             Suc (nat (sint (length_br br) - (sint (pos br) + 1)))"
    by simp
  then show ?thesis
    using assms by (simp add: remaining_bytes_def load_Suc sint_succ_long add.assoc)
qed

lemma remaining_bytes_done:
  "\<not> pos br <s length_br br \<Longrightarrow> remaining_bytes m br = []"
  by (simp add: remaining_bytes_def word_sless_alt load_0)

lemma last_step_reaches_length:
  assumes "pos br <s length_br br"
    and "\<not> pos br + 1 <s length_br br"
  shows "pos br + 1 = length_br br"
proof -
  from assms(2) have "sint (length_br br) \<le> sint (pos br + 1)"
    by (simp add: word_sless_alt)
  moreover from assms(1) have "sint (pos br) < sint (length_br br)"
    by (simp add: word_sless_alt)
  ultimately have "sint (pos br + 1) = sint (length_br br)"
    using sint_succ_long [OF assms(1)] by simp
  then show ?thesis by (rule signed_word_eqI)
qed

lemma single_loop_eq:
  "count_ls_bytereader_single_loop m br count =
     (count + of_nat (count_list (remaining_bytes m br) 0x6C),
      if pos br <s length_br br then br\<lparr>pos := length_br br\<rparr> else br)"
proof (induction m br count rule: count_ls_bytereader_single_loop.induct)
  case (1 m br count)
  show ?case
  proof (cases "pos br <s length_br br")
    case True
    let ?br1 = "br\<lparr>pos := pos br + 1\<rparr>"
    let ?c = "m (data br + sint (pos br))"
    let ?count1 = "if ?c = 0x6C then count + 1 else count"
    have rb: "read_byte m br = (?c, ?br1)" by (simp add: read_byte_def)
    have ih: "count_ls_bytereader_single_loop m ?br1 ?count1 =
       (?count1 + of_nat (count_list (remaining_bytes m ?br1) 0x6C),
        if pos ?br1 <s length_br ?br1 then ?br1\<lparr>pos := length_br ?br1\<rparr> else ?br1)"
      using "1.IH" [OF True rb [symmetric] refl] .
    have unfold: "count_ls_bytereader_single_loop m br count =
          count_ls_bytereader_single_loop m ?br1 ?count1"
      using True rb by (subst count_ls_bytereader_single_loop.simps) simp
    from last_step_reaches_length [OF True]
    have fin: "\<not> pos ?br1 <s length_br ?br1 \<Longrightarrow> pos br + 1 = length_br br"
      by simp
    from unfold ih True fin show ?thesis
      by (auto simp: remaining_bytes_step [OF True])
  next
    case False
    then show ?thesis
      by (subst count_ls_bytereader_single_loop.simps) (simp add: remaining_bytes_done)
  qed
qed

lemma read_bytes_1: "read_bytes br 1 = (data br + sint (pos br), br\<lparr>pos := pos br + 1\<rparr>)"
  by (simp add: read_bytes_def)

lemma slice_loop_eq:
  "count_ls_bytereader_loop m br count =
     (count + of_nat (count_list (remaining_bytes m br) 0x6C),
      if pos br <s length_br br then br\<lparr>pos := length_br br\<rparr> else br)"
proof (induction m br count rule: count_ls_bytereader_loop.induct)
  case (1 m br count)
  show ?case
  proof (cases "pos br <s length_br br")
    case True
    let ?br1 = "br\<lparr>pos := pos br + 1\<rparr>"
    let ?p = "data br + sint (pos br)"
    let ?count1 = "if m ?p = 0x6C then count + 1 else count"
    have ih: "count_ls_bytereader_loop m ?br1 ?count1 =
       (?count1 + of_nat (count_list (remaining_bytes m ?br1) 0x6C),
        if pos ?br1 <s length_br ?br1 then ?br1\<lparr>pos := length_br ?br1\<rparr> else ?br1)"
      using "1.IH" [OF True read_bytes_1 [symmetric] refl] .
    have unfold: "count_ls_bytereader_loop m br count =
          count_ls_bytereader_loop m ?br1 ?count1"
      using True by (subst count_ls_bytereader_loop.simps) (simp add: read_bytes_1)
    from last_step_reaches_length [OF True]
    have fin: "\<not> pos ?br1 <s length_br ?br1 \<Longrightarrow> pos br + 1 = length_br br"
      by simp
    from unfold ih True fin show ?thesis
      by (auto simp: remaining_bytes_step [OF True])
  next
    case False
    then show ?thesis
      by (subst count_ls_bytereader_loop.simps) (simp add: remaining_bytes_done)
  qed
qed

subsection \<open>The indexed loop and the stream loop in closed form\<close>

lemma cdef_loop_eq:
  "count_ls_cdef_loop m s s_len i count =
     count + of_nat (count_list (load m (s + sint i) (nat (sint s_len - sint i))) 0x6C)"
proof (induction m s s_len i count rule: count_ls_cdef_loop.induct)
  case (1 m s s_len i count)
  show ?case
  proof (cases "i <s s_len")
    case True
    then have lt: "sint i < sint s_len" by (simp add: word_sless_alt)
    then have n: "nat (sint s_len - sint i) = Suc (nat (sint s_len - (sint i + 1)))"
      by simp
    let ?count1 = "if m (s + sint i) = 0x6C then count + 1 else count"
    have "count_ls_cdef_loop m s s_len i count = count_ls_cdef_loop m s s_len (i + 1) ?count1"
      using True by (subst count_ls_cdef_loop.simps) simp
    also have "\<dots> = ?count1 +
        of_nat (count_list (load m (s + sint (i + 1)) (nat (sint s_len - sint (i + 1)))) 0x6C)"
      using "1.IH" [OF True] .
    finally show ?thesis
      by (simp add: n load_Suc sint_succ_cint [OF True] add.assoc)
  next
    case False
    then show ?thesis
      by (subst count_ls_cdef_loop.simps) (simp add: word_sless_alt load_0)
  qed
qed

lemma bytesio_loop_eq:
  "count_ls_bytesio_loop fo c count =
     (if c = [] then (count, fo)
      else (count + of_nat (count_list (c ! 0 # drop (offset fo) (buf fo)) 0x6C),
            fo\<lparr>offset := max (offset fo) (length (buf fo))\<rparr>))"
proof (induction fo c count rule: count_ls_bytesio_loop.induct)
  case (1 fo c count)
  show ?case
  proof (cases "c = []")
    case True
    then show ?thesis by (subst count_ls_bytesio_loop.simps) simp
  next
    case False
    let ?count1 = "if c ! 0 = 0x6C then count + 1 else count"
    let ?c1 = "take 1 (drop (offset fo) (buf fo))"
    let ?fo1 = "fo\<lparr>offset := offset fo + length ?c1\<rparr>"
    have rd: "BytesIO_read fo 1 = (?c1, ?fo1)" by (simp add: BytesIO_read_def)
    have unfold: "count_ls_bytesio_loop fo c count = count_ls_bytesio_loop ?fo1 ?c1 ?count1"
      using False rd by (subst count_ls_bytesio_loop.simps) (simp add: Let_def)
    have ih: "count_ls_bytesio_loop ?fo1 ?c1 ?count1 =
       (if ?c1 = [] then (?count1, ?fo1)
        else (?count1 + of_nat (count_list (?c1 ! 0 # drop (offset ?fo1) (buf ?fo1)) 0x6C),
              ?fo1\<lparr>offset := max (offset ?fo1) (length (buf ?fo1))\<rparr>))"
      using "1.IH" [OF False refl rd [symmetric] refl] .
    show ?thesis
    proof (cases "offset fo < length (buf fo)")
      case True
      then have d: "drop (offset fo) (buf fo) = buf fo ! offset fo # drop (Suc (offset fo)) (buf fo)"
        by (simp add: Cons_nth_drop_Suc)
      from True have mx: "max (Suc (offset fo)) (length (buf fo)) = max (offset fo) (length (buf fo))"
        by simp
      show ?thesis
        using False unfold ih mx by (simp add: d)
    next
      case False
      then have d: "drop (offset fo) (buf fo) = []" by simp
      from False have mx: "max (offset fo) (length (buf fo)) = offset fo" by simp
      show ?thesis
        using \<open>c \<noteq> []\<close> unfold ih by (simp add: d mx)
    qed
  qed
qed

lemma bytesio_eq:
  "count_ls_bytesio \<lparr>buf = s, offset = 0\<rparr> =
     (of_nat (count_list s 0x6C), \<lparr>buf = s, offset = length s\<rparr>)"
proof (cases s)
  case Nil
  then show ?thesis
    by (simp add: count_ls_bytesio_def BytesIO_read_def bytesio_loop_eq)
next
  case (Cons x xs)
  then show ?thesis
    by (simp add: count_ls_bytesio_def BytesIO_read_def bytesio_loop_eq)
qed

subsection \<open>Lengths and counts as machine integers\<close>

lemma sint_of_nat_cint: "n < 2 ^ 31 \<Longrightarrow> sint (word_of_nat n :: cint) = int n"
proof -
  assume "n < 2 ^ 31"
  then have "int n < 2 ^ 31" by (simp add: of_nat_less_numeral_power_cancel_iff)
  then show ?thesis
    by (simp add: signed_of_nat signed_take_bit_int_eq_self_iff)
qed

lemma sint_of_nat_long: "n < 2 ^ 63 \<Longrightarrow> sint (word_of_nat n :: long) = int n"
proof -
  assume "n < 2 ^ 63"
  then have "int n < 2 ^ 63" by (simp add: of_nat_less_numeral_power_cancel_iff)
  then show ?thesis
    by (simp add: signed_of_nat signed_take_bit_int_eq_self_iff)
qed

lemma sint_of_nat_cint_le: "sint (word_of_nat n :: cint) \<le> int n"
  by (simp add: signed_of_nat signed_take_bit_int_less_eq_self_iff)

subsection \<open>The entry points in closed form\<close>

lemma remaining_bytes_new:
  assumes "bytes_at m a s" and "length s < 2 ^ 63"
  shows "remaining_bytes m (new_ByteReader a s) = s"
  using assms
  by (simp add: remaining_bytes_def new_ByteReader_def sint_of_nat_long bytes_at_def)

lemma py_count_ls_bytereader_eq:
  assumes "bytes_at m a s" and "length s < 2 ^ 63"
  shows "py_count_ls_bytereader m a s = sint (word_of_nat (count_list s 0x6C) :: cint)"
  by (simp add: py_count_ls_bytereader_def count_ls_bytereader_def slice_loop_eq
      remaining_bytes_new [OF assms])

lemma py_count_ls_bytereader_single_eq:
  assumes "bytes_at m a s" and "length s < 2 ^ 63"
  shows "py_count_ls_bytereader_single m a s = sint (word_of_nat (count_list s 0x6C) :: cint)"
  by (simp add: py_count_ls_bytereader_single_def count_ls_bytereader_single_def single_loop_eq
      remaining_bytes_new [OF assms])

lemma py_count_ls_bytesio_eq:
  "py_count_ls_bytesio s = sint (word_of_nat (count_list s 0x6C) :: cint)"
  by (simp add: py_count_ls_bytesio_def bytesio_eq)

lemma count_ls_cdef_eq:
  "sint (count_ls_cdef m s s_len) = int (count_list (load m s (nat (sint s_len))) 0x6C)"
proof -
  let ?n = "nat (sint s_len)"
  have "count_list (load m s ?n) 0x6C \<le> ?n"
    using count_le_length [of "load m s ?n" "0x6C"] by (simp add: length_load)
  moreover have "?n < 2 ^ 31"
  proof -
    have "sint s_len < 2 ^ 31" using sint_lt [of s_len] by simp
    then have "int ?n < 2 ^ 31" by simp
    then show ?thesis by (simp only: of_nat_less_numeral_power_cancel_iff)
  qed
  ultimately have "count_list (load m s ?n) 0x6C < 2 ^ 31"
    by (rule le_less_trans)
  then show ?thesis
    by (simp add: count_ls_cdef_def cdef_loop_eq sint_of_nat_cint)
qed

lemma py_count_ls_cdef_eq:
  assumes "bytes_at m a s"
  shows "py_count_ls_cdef m a s =
           int (count_list (take (nat (sint (word_of_nat (length s) :: cint))) s) 0x6C)"
proof -
  let ?n = "nat (sint (word_of_nat (length s) :: cint))"
  have "?n \<le> length s"
    using sint_of_nat_cint_le [of "length s"] by linarith
  then have "load m a ?n = take ?n s"
    using load_bytes_at [OF assms, of 0 ?n] by simp
  then show ?thesis
    by (simp add: py_count_ls_cdef_def count_ls_cdef_eq)
qed

subsection \<open>Advancing a cursor\<close>

lemma sint_add_long:
  assumes "- (2 ^ 63) \<le> sint x + sint y" and "sint x + sint y < 2 ^ 63"
  shows "sint (x + y :: long) = sint x + sint y"
  using assms by (simp add: sint_word_add signed_take_bit_int_eq_self_iff)

lemma repeat_read_byte_eq:
  "repeat_read_byte m n br =
     (map (\<lambda>k. m (data br + sint (pos br + word_of_nat k))) [0..<n],
      br\<lparr>pos := pos br + word_of_nat n\<rparr>)"
proof (induction n arbitrary: br)
  case 0
  show ?case by simp
next
  case (Suc n)
  have "[0..<Suc n] = 0 # map Suc [0..<n]"
    by (simp add: upt_conv_Cons map_Suc_upt del: upt_Suc)
  then show ?case
    by (simp add: Suc.IH read_byte_def comp_def add.assoc del: upt_Suc)
qed

lemma repeat_read_byte_new:
  assumes "bytes_at m a b" and "length b < 2 ^ 63" and "n \<le> length b"
  shows "repeat_read_byte m n (new_ByteReader a b) =
           (take n b, \<lparr>data = a, pos = word_of_nat n, length_br = word_of_nat (length b)\<rparr>)"
proof -
  have "map (\<lambda>k. m (a + sint (word_of_nat k :: long))) [0..<n] = take n b"
  proof (rule nth_equalityI)
    show "length (map (\<lambda>k. m (a + sint (word_of_nat k :: long))) [0..<n]) = length (take n b)"
      using assms(3) by simp
  next
    fix i assume "i < length (map (\<lambda>k. m (a + sint (word_of_nat k :: long))) [0..<n])"
    then have i: "i < n" by simp
    with assms have "i < 2 ^ 63" by simp
    then have s: "sint (word_of_nat i :: long) = int i" by (rule sint_of_nat_long)
    from i assms(3) have "i < length b" by simp
    then have "load m a (length b) ! i = m (a + int i)" by (rule nth_load)
    with assms(1) have "b ! i = m (a + int i)" by (simp add: bytes_at_def)
    with i s show "map (\<lambda>k. m (a + sint (word_of_nat k :: long))) [0..<n] ! i = take n b ! i"
      by simp
  qed
  then show ?thesis
    by (simp add: repeat_read_byte_eq new_ByteReader_def)
qed

subsection \<open>Buffers of \<open>2^31\<close> bytes\<close>

lemma count_list_replicate_eq: "count_list (replicate n x) y = (if x = y then n else 0)"
  by (induction n) auto

lemma bytes_at_const: "bytes_at (\<lambda>_. c) a (replicate n c)"
  by (simp add: bytes_at_def load_def map_replicate_const)

lemma bytes_at_head_then_zeros:
  "bytes_at (\<lambda>a. if a = 0 then c else 0) 0 (c # replicate n 0)"
proof -
  let ?m = "\<lambda>a::int. if a = 0 then c else (0::byte)"
  have "load ?m 0 (Suc n) = c # load ?m 1 n" by (simp add: load_Suc)
  moreover have "load ?m 1 n = replicate n 0"
    by (simp add: load_def map_replicate_const)
  ultimately show ?thesis by (simp add: bytes_at_def)
qed

lemma sint_two_31: "sint (word_of_nat 2147483648 :: cint) = - 2147483648"
  by simp

subsection \<open>Termination of the cursor loops, and the reads they make\<close>





section \<open>The claims\<close>


subsection \<open>C1: what the counting loops count\<close>

text \<open>
  Claim C1. For every buffer and every byte value \<open>t\<close> in \<open>0..255\<close>, counting on a cursor
  returns exactly the number of positions \<open>i\<close> in \<open>[position, length)\<close> with
  \<open>buffer[i] = t\<close>.

  The counting functions of the module take no target byte: each compares with the
  constant \<open>b'l'\<close> (0x6C). At a cursor over the one-byte buffer \<open>"a"\<close> and \<open>t = 0x61\<close>
  one position holds \<open>t\<close>, and the count returned is 0. The count is moreover a C
  \<open>int\<close>: at a cursor over \<open>2^31\<close> bytes \<open>'l'\<close> and \<open>t = 0x6C\<close>, \<open>2^31\<close> positions
  hold \<open>t\<close>, and the count returned is \<open>-2^31\<close>.
\<close>

theorem count_matches_any_target_counterexample:
  "sint (count_ls_bytereader_single (\<lambda>_. 0x61) \<lparr>data = 0, pos = 0, length_br = 1\<rparr>) = 0
   \<and> count_list (remaining_bytes (\<lambda>_. 0x61) \<lparr>data = 0, pos = 0, length_br = 1\<rparr>) 0x61 = 1
   \<and> sint (count_ls_bytereader_single (\<lambda>_. 0x6C) \<lparr>data = 0, pos = 0, length_br = 2147483648\<rparr>)
       = - 2147483648
   \<and> count_list (remaining_bytes (\<lambda>_. 0x6C) \<lparr>data = 0, pos = 0, length_br = 2147483648\<rparr>)
         0x6C = 2147483648"
proof -
  let ?big = "\<lparr>data = 0, pos = 0, length_br = 2147483648\<rparr>"
  have "remaining_bytes (\<lambda>_. 0x6C) ?big = replicate 2147483648 0x6C"
    by (simp add: remaining_bytes_def load_def map_replicate_const)
  then have cnt: "count_list (remaining_bytes (\<lambda>_. 0x6C) ?big) 0x6C = 2147483648"
    by (simp add: count_list_replicate_eq)
  have "count_ls_bytereader_single (\<lambda>_. 0x6C) ?big = word_of_nat 2147483648"
    by (simp only: count_ls_bytereader_single_def single_loop_eq cnt fst_conv add_0_left)
  then have big: "sint (count_ls_bytereader_single (\<lambda>_. 0x6C) ?big) = - 2147483648"
    by (simp only: sint_two_31)
  have small:
    "sint (count_ls_bytereader_single (\<lambda>_. 0x61) \<lparr>data = 0, pos = 0, length_br = 1\<rparr>) = 0
     \<and> count_list (remaining_bytes (\<lambda>_. 0x61) \<lparr>data = 0, pos = 0, length_br = 1\<rparr>) 0x61 = 1"
    by (simp add: count_ls_bytereader_single_def single_loop_eq remaining_bytes_def load_def)
  from small big cnt show ?thesis by (intro conjI) simp_all
qed

text \<open>
  Claim C1 as amended. The count returned is exactly the number of positions \<open>i\<close> in
  \<open>[position, length)\<close> with \<open>buffer[i] = 0x6C\<close>, the one fixed target, whenever that
  number is below \<open>2^31\<close> (the count is a C \<open>int\<close>); this holds for the cursor read a byte
  at a time and for the cursor read a slice at a time. The indexed scan returns the
  number of positions \<open>i\<close> in \<open>[0, s_len)\<close> with \<open>s[i] = 0x6C\<close>, which is always below
  \<open>2^31\<close>.
\<close>

theorem count_ls_counts_target_l:
  assumes "count_list (remaining_bytes m br) 0x6C < 2 ^ 31"
  shows "sint (count_ls_bytereader_single m br) = int (count_list (remaining_bytes m br) 0x6C)
       \<and> sint (count_ls_bytereader m br) = int (count_list (remaining_bytes m br) 0x6C)
       \<and> sint (count_ls_cdef m s s_len) = int (count_list (load m s (nat (sint s_len))) 0x6C)"
  using assms
  by (simp add: count_ls_bytereader_single_def single_loop_eq
      count_ls_bytereader_def slice_loop_eq sint_of_nat_cint count_ls_cdef_eq)

theorem count_ls_counts_target_l_witness:
  "count_list (remaining_bytes (\<lambda>a. if a = 1 then 0x6C else 0x61)
       \<lparr>data = 0, pos = 0, length_br = 3\<rparr>) 0x6C < 2 ^ 31
   \<and> sint (count_ls_bytereader_single (\<lambda>a. if a = 1 then 0x6C else 0x61)
       \<lparr>data = 0, pos = 0, length_br = 3\<rparr>) = 1
   \<and> sint (count_ls_bytereader (\<lambda>a. if a = 1 then 0x6C else 0x61)
       \<lparr>data = 0, pos = 0, length_br = 3\<rparr>) = 1
   \<and> sint (count_ls_cdef (\<lambda>a. if a = 1 then 0x6C else 0x61) 0 3) = 1"
proof -
  let ?m = "\<lambda>a::int. if a = 1 then 0x6C else (0x61::byte)"
  let ?br = "\<lparr>data = 0, pos = 0, length_br = 3\<rparr>"
  have r: "remaining_bytes ?m ?br = [0x61, 0x6C, 0x61]"
    by (simp add: remaining_bytes_def load_def upt_conv_Cons)
  have l: "load ?m 0 3 = [0x61, 0x6C, 0x61]"
    by (simp add: load_def upt_conv_Cons)
  have h: "count_list (remaining_bytes ?m ?br) 0x6C < 2 ^ 31"
    by (simp add: r)
  from count_ls_counts_target_l [OF h, of 0 3] h show ?thesis
    by (simp add: r l)
qed

subsection \<open>C2: single-byte reads at and before the end of the buffer\<close>

text \<open>
  Claim C2. \<open>read_byte\<close> raises \<open>OutOfBounds\<close> exactly when \<open>position \<ge> length\<close>; from a
  fresh cursor over \<open>b\<close> it succeeds exactly \<open>size(b)\<close> times, each time yielding the byte
  at the current position and advancing the position by 1, and the next call fails.

  \<open>read_byte\<close> has no error exit and does not look at \<open>length\<close>. On the fresh cursor
  over the empty buffer (\<open>position = length = 0\<close>) the call returns: it yields the byte
  stored behind the buffer (the NUL that ends a bytes object's storage here) and leaves
  \<open>position = 1\<close>.
\<close>

theorem read_byte_at_end_counterexample:
  "\<not> pos (new_ByteReader 0 []) <s length_br (new_ByteReader 0 [])
   \<and> read_byte (\<lambda>_. 0) (new_ByteReader 0 []) = (0, \<lparr>data = 0, pos = 1, length_br = 0\<rparr>)"
  by (simp add: new_ByteReader_def read_byte_def)

text \<open>
  Claim C2 as amended. \<open>read_byte\<close> never raises: it has no bounds check. From a fresh
  cursor over \<open>b\<close>, after \<open>k \<le> size(b)\<close> calls the position is \<open>k\<close>; for \<open>k < size(b)\<close>
  the next call yields \<open>b[k]\<close>, the byte at the current position, and advances the
  position by 1. The call after \<open>size(b)\<close> calls is not rejected either: it yields the
  byte stored behind the buffer and leaves the position at \<open>size(b) + 1\<close>, beyond
  \<open>length\<close>.
\<close>

theorem read_byte_sequence:
  assumes "bytes_at m a b" and "Suc (length b) < 2 ^ 63" and "k \<le> length b"
  shows "sint (pos (snd (repeat_read_byte m k (new_ByteReader a b)))) = int k
       \<and> fst (read_byte m (snd (repeat_read_byte m k (new_ByteReader a b))))
           = (if k < length b then b ! k else m (a + int (length b)))
       \<and> sint (pos (snd (read_byte m (snd (repeat_read_byte m k (new_ByteReader a b))))))
           = int k + 1
       \<and> length_br (snd (read_byte m (snd (repeat_read_byte m k (new_ByteReader a b)))))
           = length_br (new_ByteReader a b)"
proof -
  from assms(2) have len: "length b < 2 ^ 63" by simp
  let ?br = "\<lparr>data = a, pos = word_of_nat k, length_br = word_of_nat (length b)\<rparr>"
  have st: "snd (repeat_read_byte m k (new_ByteReader a b)) = ?br"
    using repeat_read_byte_new [OF assms(1) len assms(3)] by simp
  from assms have k: "k < 2 ^ 63" and k1: "Suc k < 2 ^ 63" by simp_all
  have sk: "sint (word_of_nat k :: long) = int k" using k by (rule sint_of_nat_long)
  have "sint (word_of_nat (Suc k) :: long) = int (Suc k)" using k1 by (rule sint_of_nat_long)
  then have sk1: "sint (word_of_nat k + 1 :: long) = int k + 1" by (simp add: add.commute)
  have byte: "m (a + int k) = (if k < length b then b ! k else m (a + int (length b)))"
  proof (cases "k < length b")
    case True
    then have "load m a (length b) ! k = m (a + int k)" by (rule nth_load)
    with assms(1) True show ?thesis by (simp add: bytes_at_def)
  next
    case False
    with assms(3) have "k = length b" by simp
    then show ?thesis by simp
  qed
  show ?thesis
    unfolding st using byte by (simp add: read_byte_def sk sk1 new_ByteReader_def)
qed

theorem read_byte_sequence_witness:
  "bytes_at (\<lambda>a. if a = 0 then 0x6C else 0) 0 [0x6C]
   \<and> sint (pos (snd (repeat_read_byte (\<lambda>a. if a = 0 then 0x6C else 0) 1
        (new_ByteReader 0 [0x6C])))) = 1
   \<and> fst (read_byte (\<lambda>a. if a = 0 then 0x6C else 0)
        (snd (repeat_read_byte (\<lambda>a. if a = 0 then 0x6C else 0) 1 (new_ByteReader 0 [0x6C])))) = 0
   \<and> sint (pos (snd (read_byte (\<lambda>a. if a = 0 then 0x6C else 0)
        (snd (repeat_read_byte (\<lambda>a. if a = 0 then 0x6C else 0) 1 (new_ByteReader 0 [0x6C])))))) = 2"
proof -
  let ?m = "\<lambda>a::int. if a = 0 then 0x6C else (0::byte)"
  have h1: "bytes_at ?m 0 [0x6C]"
    by (simp add: bytes_at_def load_def)
  have h2: "Suc (length [0x6C :: byte]) < 2 ^ 63" by simp
  have h3: "1 \<le> length [0x6C :: byte]" by simp
  from read_byte_sequence [OF h1 h2 h3] h1 show ?thesis by simp
qed

subsection \<open>C3: the cursor invariant\<close>

text \<open>
  Claim C3. For every cursor and every sequence of \<open>read_byte\<close>, \<open>read_slice\<close> and
  counting operations, \<open>0 \<le> position \<le> length\<close> holds after each operation; no read
  leaves the position greater than \<open>length\<close>.

  Neither read compares the position with \<open>length\<close>. A slice read of 5 bytes on a
  well-formed cursor over 3 bytes leaves \<open>position = 5\<close>, and a single-byte read on a
  cursor at the end of its 3 bytes leaves \<open>position = 4\<close>.
\<close>

theorem cursor_invariant_counterexample:
  "well_formed \<lparr>data = 0, pos = 0, length_br = 3\<rparr>
   \<and> snd (read_bytes \<lparr>data = 0, pos = 0, length_br = 3\<rparr> 5) = \<lparr>data = 0, pos = 5, length_br = 3\<rparr>
   \<and> \<not> well_formed (snd (read_bytes \<lparr>data = 0, pos = 0, length_br = 3\<rparr> 5))
   \<and> well_formed \<lparr>data = 0, pos = 3, length_br = 3\<rparr>
   \<and> \<not> well_formed (snd (read_byte (\<lambda>_. 0) \<lparr>data = 0, pos = 3, length_br = 3\<rparr>))"
  by (simp add: well_formed_def read_bytes_def read_byte_def)

text \<open>
  Claim C3 as amended. The reads keep \<open>0 \<le> position \<le> length\<close> when the caller asks
  for no more than remains: \<open>read_byte\<close> when \<open>position < length\<close>, and \<open>read_slice\<close> of
  \<open>n\<close> bytes when \<open>0 \<le> n\<close> and \<open>position + n \<le> length\<close>. The counting loops keep it
  always (they read only while \<open>position < length\<close>). The reads themselves do not check.
\<close>

theorem cursor_invariant_within_bounds:
  assumes "well_formed br"
  shows "(pos br <s length_br br \<longrightarrow> well_formed (snd (read_byte m br)))
       \<and> (0 \<le> sint num \<and> sint (pos br) + sint num \<le> sint (length_br br)
            \<longrightarrow> well_formed (snd (read_bytes br num)))
       \<and> well_formed (snd (count_ls_bytereader_loop m br count))
       \<and> well_formed (snd (count_ls_bytereader_single_loop m br count))"
proof -
  from assms have p0: "0 \<le> sint (pos br)" and pl: "sint (pos br) \<le> sint (length_br br)"
    by (simp_all add: well_formed_def)
  have lmax: "sint (length_br br) < 2 ^ 63" using sint_lt [of "length_br br"] by simp
  have one: "well_formed (snd (read_byte m br))" if "pos br <s length_br br"
  proof -
    from that have "sint (pos br) < sint (length_br br)" by (simp add: word_sless_alt)
    with p0 show ?thesis
      by (simp add: well_formed_def read_byte_def sint_succ_long [OF that])
  qed
  have many: "well_formed (snd (read_bytes br num))"
    if "0 \<le> sint num" and "sint (pos br) + sint num \<le> sint (length_br br)"
  proof -
    from that p0 lmax have "sint (pos br + num) = sint (pos br) + sint num"
      by (intro sint_add_long) simp_all
    with that p0 show ?thesis
      by (simp add: well_formed_def read_bytes_def)
  qed
  have fin: "well_formed (br\<lparr>pos := length_br br\<rparr>)"
    using p0 pl by (simp add: well_formed_def)
  from one many fin assms show ?thesis
    by (simp add: slice_loop_eq single_loop_eq)
qed

theorem cursor_invariant_within_bounds_witness:
  "well_formed \<lparr>data = 0, pos = 1, length_br = 3\<rparr>
   \<and> well_formed (snd (read_byte (\<lambda>_. 0x6C) \<lparr>data = 0, pos = 1, length_br = 3\<rparr>))
   \<and> well_formed (snd (read_bytes \<lparr>data = 0, pos = 1, length_br = 3\<rparr> 2))
   \<and> well_formed (snd (count_ls_bytereader_loop (\<lambda>_. 0x6C) \<lparr>data = 0, pos = 1, length_br = 3\<rparr> 0))"
proof -
  have h: "well_formed \<lparr>data = 0, pos = 1, length_br = 3\<rparr>"
    by (simp add: well_formed_def)
  from cursor_invariant_within_bounds [OF h, of "\<lambda>_. 0x6C" 2 0] h show ?thesis
    by (simp add: word_sless_alt)
qed

subsection \<open>C4: the four variants agree\<close>

text \<open>
  Claim C4. For every input byte buffer, the four counting variants (indexed scan,
  cursor read one slice per step, cursor read one byte per step, stream reader) return
  the same count.

  The indexed scan receives the length as a C \<open>int\<close>, the cursors as a C \<open>long\<close>, and
  the stream reader needs none. For the buffer of \<open>2^31\<close> bytes that starts with \<open>'l'\<close>
  and is zero elsewhere, \<open>len(s)\<close> arrives in \<open>s_len\<close> as \<open>-2^31\<close>: the indexed scan
  runs no iteration and returns 0, while the other three return 1.
\<close>

theorem four_variants_counterexample:
  "bytes_at (\<lambda>a. if a = 0 then 0x6C else 0) 0 (0x6C # replicate 2147483647 0)
   \<and> py_count_ls_cdef (\<lambda>a. if a = 0 then 0x6C else 0) 0 (0x6C # replicate 2147483647 0) = 0
   \<and> py_count_ls_bytereader (\<lambda>a. if a = 0 then 0x6C else 0) 0 (0x6C # replicate 2147483647 0) = 1
   \<and> py_count_ls_bytereader_single (\<lambda>a. if a = 0 then 0x6C else 0) 0
        (0x6C # replicate 2147483647 0) = 1
   \<and> py_count_ls_bytesio (0x6C # replicate 2147483647 0) = 1"
proof -
  let ?m = "\<lambda>a::int. if a = 0 then 0x6C else (0::byte)"
  let ?s = "0x6C # replicate 2147483647 (0::byte)"
  have at: "bytes_at ?m 0 ?s" by (rule bytes_at_head_then_zeros)
  have len: "length ?s = 2147483648" by simp
  then have len63: "length ?s < 2 ^ 63" by simp
  have cnt: "count_list ?s 0x6C = 1" by (simp add: count_list_replicate_eq)
  have "py_count_ls_cdef ?m 0 ?s = 0"
    by (simp only: py_count_ls_cdef_eq [OF at] len sint_two_31) simp
  moreover have "py_count_ls_bytereader ?m 0 ?s = 1"
    by (simp only: py_count_ls_bytereader_eq [OF at len63] cnt) simp
  moreover have "py_count_ls_bytereader_single ?m 0 ?s = 1"
    by (simp only: py_count_ls_bytereader_single_eq [OF at len63] cnt) simp
  moreover have "py_count_ls_bytesio ?s = 1"
    by (simp only: py_count_ls_bytesio_eq cnt) simp
  ultimately show ?thesis using at by (intro conjI)
qed

text \<open>
  Claim C4 as amended. For every input of fewer than \<open>2^31\<close> bytes the four counting
  variants return the same count, the number of bytes of the input equal to 0x6C.
\<close>

theorem four_variants_agree:
  assumes "bytes_at m a s" and "length s < 2 ^ 31"
  shows "py_count_ls_cdef m a s = int (count_list s 0x6C)
       \<and> py_count_ls_bytereader m a s = py_count_ls_cdef m a s
       \<and> py_count_ls_bytereader_single m a s = py_count_ls_cdef m a s
       \<and> py_count_ls_bytesio s = py_count_ls_cdef m a s"
proof -
  from assms(2) have len63: "length s < 2 ^ 63" by simp
  have "count_list s 0x6C \<le> length s" by (rule count_le_length)
  then have "count_list s 0x6C < 2 ^ 31" using assms(2) by (rule le_less_trans)
  then have c: "sint (word_of_nat (count_list s 0x6C) :: cint) = int (count_list s 0x6C)"
    by (rule sint_of_nat_cint)
  have "sint (word_of_nat (length s) :: cint) = int (length s)"
    using assms(2) by (rule sint_of_nat_cint)
  then have cdef: "py_count_ls_cdef m a s = int (count_list s 0x6C)"
    by (simp add: py_count_ls_cdef_eq [OF assms(1)])
  show ?thesis
    by (simp add: cdef c py_count_ls_bytereader_eq [OF assms(1) len63]
        py_count_ls_bytereader_single_eq [OF assms(1) len63] py_count_ls_bytesio_eq)
qed

theorem four_variants_agree_witness:
  "bytes_at (\<lambda>a. if a = 2 \<or> a = 3 then 0x6C else 0x61) 0 [0x61, 0x61, 0x6C, 0x6C, 0x61]
   \<and> py_count_ls_cdef (\<lambda>a. if a = 2 \<or> a = 3 then 0x6C else 0x61) 0
        [0x61, 0x61, 0x6C, 0x6C, 0x61] = 2
   \<and> py_count_ls_bytereader (\<lambda>a. if a = 2 \<or> a = 3 then 0x6C else 0x61) 0
        [0x61, 0x61, 0x6C, 0x6C, 0x61] = 2
   \<and> py_count_ls_bytereader_single (\<lambda>a. if a = 2 \<or> a = 3 then 0x6C else 0x61) 0
        [0x61, 0x61, 0x6C, 0x6C, 0x61] = 2
   \<and> py_count_ls_bytesio [0x61, 0x61, 0x6C, 0x6C, 0x61] = 2"
proof -
  let ?m = "\<lambda>a::int. if a = 2 \<or> a = 3 then 0x6C else (0x61::byte)"
  let ?s = "[0x61, 0x61, 0x6C, 0x6C, 0x61 :: byte]"
  have h1: "bytes_at ?m 0 ?s"
    by (simp add: bytes_at_def load_def upt_conv_Cons)
  have h2: "length ?s < 2 ^ 31" by simp
  from four_variants_agree [OF h1 h2] h1 show ?thesis by auto
qed

subsection \<open>C5: a slice read within the buffer\<close>

text \<open>
  Claim C5. For every cursor and every non-negative \<open>n\<close> with \<open>position + n \<le> length\<close>,
  the slice read returns a zero-copy view of the bytes \<open>[position, position + n)\<close> of
  the underlying buffer and advances the position by exactly \<open>n\<close>; for \<open>n = 0\<close> it
  succeeds and returns an empty view without advancing.

  The cursor stands over the buffer \<open>b\<close> stored at \<open>data\<close>, with \<open>0 \<le> position\<close> and
  \<open>length \<le> size(b)\<close>. The view is the pointer \<open>data + position\<close>, an address inside the
  buffer's own storage (nothing is copied); the \<open>n\<close> bytes read through it are the bytes
  \<open>[position, position + n)\<close> of \<open>b\<close>; nothing but the position changes in the cursor.
\<close>

theorem read_bytes_within_bounds:
  assumes "bytes_at m (data br) b"
    and "sint (length_br br) \<le> int (length b)"
    and "0 \<le> sint (pos br)"
    and "0 \<le> sint num"
    and "sint (pos br) + sint num \<le> sint (length_br br)"
  shows "fst (read_bytes br num) = data br + sint (pos br)
       \<and> load m (fst (read_bytes br num)) (nat (sint num))
           = take (nat (sint num)) (drop (nat (sint (pos br))) b)
       \<and> snd (read_bytes br num) = br\<lparr>pos := pos br + num\<rparr>
       \<and> sint (pos (snd (read_bytes br num))) = sint (pos br) + sint num
       \<and> (num = 0 \<longrightarrow> snd (read_bytes br num) = br
                     \<and> load m (fst (read_bytes br num)) (nat (sint num)) = [])"
proof -
  have ptr: "fst (read_bytes br num) = data br + sint (pos br)"
    by (simp add: read_bytes_def)
  have "nat (sint (pos br)) + nat (sint num) \<le> length b"
    using assms(2-5) by linarith
  then have "load m (data br + int (nat (sint (pos br)))) (nat (sint num))
           = take (nat (sint num)) (drop (nat (sint (pos br))) b)"
    by (rule load_bytes_at [OF assms(1)])
  with assms(3) have view: "load m (data br + sint (pos br)) (nat (sint num))
           = take (nat (sint num)) (drop (nat (sint (pos br))) b)"
    by simp
  have lmax: "sint (length_br br) < 2 ^ 63" using sint_lt [of "length_br br"] by simp
  from assms(3-5) lmax have adv: "sint (pos br + num) = sint (pos br) + sint num"
    by (intro sint_add_long) simp_all
  show ?thesis
    using view adv by (simp add: ptr) (simp add: read_bytes_def load_0)
qed

theorem read_bytes_within_bounds_witness:
  "bytes_at (\<lambda>a. if a = 11 then 0x6C else 0x61) 10 [0x61, 0x6C, 0x61]
   \<and> fst (read_bytes \<lparr>data = 10, pos = 1, length_br = 3\<rparr> 2) = 11
   \<and> load (\<lambda>a. if a = 11 then 0x6C else 0x61)
        (fst (read_bytes \<lparr>data = 10, pos = 1, length_br = 3\<rparr> 2)) 2 = [0x6C, 0x61]
   \<and> snd (read_bytes \<lparr>data = 10, pos = 1, length_br = 3\<rparr> 2)
        = \<lparr>data = 10, pos = 3, length_br = 3\<rparr>
   \<and> snd (read_bytes \<lparr>data = 10, pos = 1, length_br = 3\<rparr> 0)
        = \<lparr>data = 10, pos = 1, length_br = 3\<rparr>
   \<and> load (\<lambda>a. if a = 11 then 0x6C else 0x61)
        (fst (read_bytes \<lparr>data = 10, pos = 1, length_br = 3\<rparr> 0)) 0 = []"
proof -
  let ?m = "\<lambda>a::int. if a = 11 then 0x6C else (0x61::byte)"
  let ?br = "\<lparr>data = 10, pos = 1, length_br = 3\<rparr>"
  have h1: "bytes_at ?m (data ?br) [0x61, 0x6C, 0x61]"
    by (simp add: bytes_at_def load_def upt_conv_Cons)
  have h2: "sint (length_br ?br) \<le> int (length [0x61, 0x6C, 0x61 :: byte])" by simp
  have h3: "0 \<le> sint (pos ?br)" by simp
  have h4: "0 \<le> sint (2 :: long)" by simp
  have h5: "sint (pos ?br) + sint (2 :: long) \<le> sint (length_br ?br)" by simp
  have h6: "0 \<le> sint (0 :: long)" by simp
  have h7: "sint (pos ?br) + sint (0 :: long) \<le> sint (length_br ?br)" by simp
  from read_bytes_within_bounds [OF h1 h2 h3 h4 h5]
    read_bytes_within_bounds [OF h1 h2 h3 h6 h7] h1
  show ?thesis
    by auto
qed

subsection \<open>C6: a read request for more than remains\<close>

text \<open>
  Claim C6. For every cursor, a read request that fails, because it would consume more
  bytes than remain, leaves the position unchanged (no partial advance), so the cursor
  stays usable for later reads within bounds.

  No read of the module fails or is rejected. A slice read of 5 bytes on a cursor with 3
  bytes remaining moves the position from 0 to 5; a single-byte read on a cursor with
  nothing remaining moves it from 3 to 4.
\<close>

theorem read_beyond_remaining_counterexample:
  "sint (length_br \<lparr>data = 0, pos = 0, length_br = 3\<rparr>) - sint (pos \<lparr>data = 0, pos = 0, length_br = 3\<rparr>)
     < sint (5 :: long)
   \<and> pos (snd (read_bytes \<lparr>data = 0, pos = 0, length_br = 3\<rparr> 5)) = 5
   \<and> pos (snd (read_bytes \<lparr>data = 0, pos = 0, length_br = 3\<rparr> 5))
       \<noteq> pos \<lparr>data = 0, pos = 0, length_br = 3\<rparr>
   \<and> pos (snd (read_byte (\<lambda>_. 0) \<lparr>data = 0, pos = 3, length_br = 3\<rparr>)) = 4"
  by (simp add: read_bytes_def read_byte_def)

text \<open>
  Claim C6 as amended. A read request that would consume more bytes than remain is not
  rejected and does not leave the position unchanged: the slice read advances the position
  by the whole requested \<open>n\<close> and the single-byte read by 1, so that the position ends
  beyond \<open>length\<close> (as long as the new position is below \<open>2^63\<close>, the range of a C \<open>long\<close>).
\<close>

theorem read_beyond_remaining_advances:
  assumes "sint (length_br br) - sint (pos br) < sint num"
    and "sint (pos br) + sint num < 2 ^ 63"
  shows "sint (pos (snd (read_bytes br num))) = sint (pos br) + sint num
       \<and> sint (length_br (snd (read_bytes br num))) < sint (pos (snd (read_bytes br num)))
       \<and> (\<not> pos br <s length_br br \<and> sint (pos br) + 1 < 2 ^ 63 \<longrightarrow>
            sint (pos (snd (read_byte m br))) = sint (pos br) + 1
          \<and> sint (length_br (snd (read_byte m br))) < sint (pos (snd (read_byte m br))))"
proof -
  have lmin: "- (2 ^ 63) \<le> sint (length_br br)" using sint_ge [of "length_br br"] by simp
  have pmin: "- (2 ^ 63) \<le> sint (pos br)" using sint_ge [of "pos br"] by simp
  from assms lmin have "sint (pos br + num) = sint (pos br) + sint num"
    by (intro sint_add_long) simp_all
  with assms(1) have many:
    "sint (pos (snd (read_bytes br num))) = sint (pos br) + sint num
     \<and> sint (length_br (snd (read_bytes br num))) < sint (pos (snd (read_bytes br num)))"
    by (simp add: read_bytes_def)
  have one: "sint (pos (snd (read_byte m br))) = sint (pos br) + 1
      \<and> sint (length_br (snd (read_byte m br))) < sint (pos (snd (read_byte m br)))"
    if "\<not> pos br <s length_br br" and "sint (pos br) + 1 < 2 ^ 63"
  proof -
    from that(2) pmin have "sint (pos br + 1) = sint (pos br) + sint (1 :: long)"
      by (intro sint_add_long) simp_all
    with that(1) show ?thesis
      by (simp add: read_byte_def word_sless_alt)
  qed
  from many one show ?thesis by blast
qed

theorem read_beyond_remaining_advances_witness:
  "sint (length_br \<lparr>data = 0, pos = 1, length_br = 3\<rparr>) - sint (pos \<lparr>data = 0, pos = 1, length_br = 3\<rparr>)
     < sint (7 :: long)
   \<and> sint (pos (snd (read_bytes \<lparr>data = 0, pos = 1, length_br = 3\<rparr> 7))) = 8
   \<and> sint (length_br (snd (read_bytes \<lparr>data = 0, pos = 1, length_br = 3\<rparr> 7))) = 3
   \<and> sint (pos (snd (read_byte (\<lambda>_. 0) \<lparr>data = 0, pos = 3, length_br = 3\<rparr>))) = 4"
proof -
  let ?br = "\<lparr>data = 0, pos = 1, length_br = 3\<rparr>"
  let ?end = "\<lparr>data = 0, pos = 3, length_br = 3\<rparr>"
  have h1: "sint (length_br ?br) - sint (pos ?br) < sint (7 :: long)" by simp
  have h2: "sint (pos ?br) + sint (7 :: long) < 2 ^ 63" by simp
  have h3: "sint (length_br ?end) - sint (pos ?end) < sint (1 :: long)" by simp
  have h4: "sint (pos ?end) + sint (1 :: long) < 2 ^ 63" by simp
  from read_beyond_remaining_advances [OF h1 h2, of "\<lambda>_. 0"]
    read_beyond_remaining_advances [OF h3 h4, of "\<lambda>_. 0"] h1
  show ?thesis
    by (auto simp: read_bytes_def word_sless_alt)
qed

subsection \<open>C7: the counting loops stop, on a copy of the cursor\<close>




subsection \<open>C8: a full pass of single-byte reads gives back the buffer\<close>

text \<open>
  Claim C8. For every buffer \<open>b\<close>, the bytes returned by successive \<open>read_byte\<close> calls
  over a full pass, from a fresh cursor until the cursor is exhausted, are \<open>b\<close> itself,
  in order.

  The cursor is exhausted when \<open>position < length\<close> fails, the test of the module's own
  loops. From a fresh cursor over \<open>b\<close> that happens after exactly \<open>size(b)\<close> calls and
  not before, and the bytes of those calls are \<open>b\<close>. A bytes object has fewer than
  \<open>2^63\<close> bytes (its size is a \<open>Py_ssize_t\<close>).
\<close>

theorem read_byte_pass_reconstructs_buffer:
  assumes "bytes_at m a b" and "length b < 2 ^ 63"
  shows "fst (repeat_read_byte m (length b) (new_ByteReader a b)) = b
       \<and> \<not> pos (snd (repeat_read_byte m (length b) (new_ByteReader a b)))
             <s length_br (snd (repeat_read_byte m (length b) (new_ByteReader a b)))
       \<and> (\<forall>k<length b. pos (snd (repeat_read_byte m k (new_ByteReader a b)))
             <s length_br (snd (repeat_read_byte m k (new_ByteReader a b))))"
proof -
  have full: "repeat_read_byte m (length b) (new_ByteReader a b) =
      (b, \<lparr>data = a, pos = word_of_nat (length b), length_br = word_of_nat (length b)\<rparr>)"
    using repeat_read_byte_new [OF assms, of "length b"] by simp
  have part: "pos (snd (repeat_read_byte m k (new_ByteReader a b)))
             <s length_br (snd (repeat_read_byte m k (new_ByteReader a b)))"
    if "k < length b" for k
  proof -
    from that assms(2) have "k < 2 ^ 63" by simp
    with that assms(2) show ?thesis
      using repeat_read_byte_new [OF assms, of k]
      by (simp add: word_sless_alt sint_of_nat_long)
  qed
  from full part show ?thesis by (simp add: word_sless_alt)
qed

theorem read_byte_pass_reconstructs_buffer_witness:
  "bytes_at (\<lambda>a. if a = 1 then 0x6C else 0x61) 0 [0x61, 0x6C]
   \<and> length [0x61, 0x6C :: byte] < 2 ^ 63
   \<and> fst (repeat_read_byte (\<lambda>a. if a = 1 then 0x6C else 0x61) (length [0x61, 0x6C :: byte])
            (new_ByteReader 0 [0x61, 0x6C])) = [0x61, 0x6C]"
proof -
  let ?m = "\<lambda>a::int. if a = 1 then 0x6C else (0x61::byte)"
  have h1: "bytes_at ?m 0 [0x61, 0x6C]"
    by (simp add: bytes_at_def load_def upt_conv_Cons)
  have h2: "length [0x61, 0x6C :: byte] < 2 ^ 63" by simp
  from read_byte_pass_reconstructs_buffer [OF h1 h2]
  have "fst (repeat_read_byte ?m (length [0x61, 0x6C :: byte]) (new_ByteReader 0 [0x61, 0x6C]))
          = [0x61, 0x6C]"
    by (rule conjunct1)
  with h1 h2 show ?thesis by (intro conjI)

qed

subsection \<open>C9: the entry points depend on the input bytes only\<close>

text \<open>
  Claim C9. Every public counting entry point is deterministic and free of side effects
  at its interface: two calls with equal input byte sequences return equal counts, and
  no call changes the input bytes (each call builds its own fresh cursor or stream over
  the caller's data).

  Two calls with the same bytes \<open>s\<close> may find them at different addresses and in
  different memories; the counts are equal all the same: nothing but the bytes of \<open>s\<close>
  reaches the result. The functions take the memory as an argument only, since the source
  stores nothing through its \<open>const char*\<close>; the cursor a call builds starts at position
  0 and keeps its \<open>data\<close> pointer; the stream a call builds still holds \<open>s\<close> when the
  count returns. (A bytes object has fewer than \<open>2^63\<close> bytes.)
\<close>

theorem entry_points_depend_on_bytes_only:
  assumes "bytes_at m1 a1 s" and "bytes_at m2 a2 s" and "length s < 2 ^ 63"
  shows "py_count_ls_cdef m1 a1 s = py_count_ls_cdef m2 a2 s
       \<and> py_count_ls_bytereader m1 a1 s = py_count_ls_bytereader m2 a2 s
       \<and> py_count_ls_bytereader_single m1 a1 s = py_count_ls_bytereader_single m2 a2 s
       \<and> pos (new_ByteReader a1 s) = 0
       \<and> data (snd (count_ls_bytereader_loop m1 (new_ByteReader a1 s) 0)) = a1
       \<and> data (snd (count_ls_bytereader_single_loop m1 (new_ByteReader a1 s) 0)) = a1
       \<and> buf (snd (count_ls_bytesio \<lparr>buf = s, offset = 0\<rparr>)) = s"
proof -
  have "py_count_ls_cdef m1 a1 s = py_count_ls_cdef m2 a2 s"
    by (simp only: py_count_ls_cdef_eq [OF assms(1)] py_count_ls_cdef_eq [OF assms(2)])
  moreover have "py_count_ls_bytereader m1 a1 s = py_count_ls_bytereader m2 a2 s"
    by (simp only: py_count_ls_bytereader_eq [OF assms(1,3)]
        py_count_ls_bytereader_eq [OF assms(2,3)])
  moreover have "py_count_ls_bytereader_single m1 a1 s = py_count_ls_bytereader_single m2 a2 s"
    by (simp only: py_count_ls_bytereader_single_eq [OF assms(1,3)]
        py_count_ls_bytereader_single_eq [OF assms(2,3)])
  moreover have "pos (new_ByteReader a1 s) = 0"
    by (simp add: new_ByteReader_def)
  moreover have "data (snd (count_ls_bytereader_loop m1 (new_ByteReader a1 s) 0)) = a1"
    by (simp add: slice_loop_eq new_ByteReader_def)
  moreover have "data (snd (count_ls_bytereader_single_loop m1 (new_ByteReader a1 s) 0)) = a1"
    by (simp add: single_loop_eq new_ByteReader_def)
  moreover have "buf (snd (count_ls_bytesio \<lparr>buf = s, offset = 0\<rparr>)) = s"
    by (simp add: bytesio_eq)
  ultimately show ?thesis by (intro conjI)
qed

theorem entry_points_depend_on_bytes_only_witness:
  "bytes_at (\<lambda>a. if a = 1 then 0x6C else 0x61) 0 [0x61, 0x6C]
   \<and> bytes_at (\<lambda>a. if a = 11 then 0x6C else if a = 10 then 0x61 else 0) 10 [0x61, 0x6C]
   \<and> py_count_ls_cdef (\<lambda>a. if a = 1 then 0x6C else 0x61) 0 [0x61, 0x6C]
       = py_count_ls_cdef (\<lambda>a. if a = 11 then 0x6C else if a = 10 then 0x61 else 0) 10
           [0x61, 0x6C]
   \<and> py_count_ls_bytereader_single (\<lambda>a. if a = 1 then 0x6C else 0x61) 0 [0x61, 0x6C]
       = py_count_ls_bytereader_single
           (\<lambda>a. if a = 11 then 0x6C else if a = 10 then 0x61 else 0) 10 [0x61, 0x6C]"
proof -
  let ?m1 = "\<lambda>a::int. if a = 1 then 0x6C else (0x61::byte)"
  let ?m2 = "\<lambda>a::int. if a = 11 then 0x6C else if a = 10 then 0x61 else (0::byte)"
  let ?s = "[0x61, 0x6C :: byte]"
  have h1: "bytes_at ?m1 0 ?s"
    by (simp add: bytes_at_def load_def upt_conv_Cons)
  have h2: "bytes_at ?m2 10 ?s"
    by (simp add: bytes_at_def load_def upt_conv_Cons)
  have h3: "length ?s < 2 ^ 63" by simp
  from entry_points_depend_on_bytes_only [OF h1 h2 h3] h1 h2 show ?thesis by blast
qed

subsection \<open>C10: bounds of the count\<close>

text \<open>
  Claim C10. For every input byte sequence \<open>s\<close>, the count returned by each public
  counting entry point satisfies \<open>0 \<le> result \<le> len(s)\<close>.

  The count is a C \<open>int\<close>. On the input of \<open>2^31\<close> bytes that are all \<open>'l'\<close> the counter of
  the cursor and stream variants is incremented \<open>2^31\<close> times and ends at \<open>-2^31\<close>.
\<close>

theorem count_bounds_counterexample:
  "bytes_at (\<lambda>_. 0x6C) 0 (replicate 2147483648 0x6C)
   \<and> py_count_ls_bytereader_single (\<lambda>_. 0x6C) 0 (replicate 2147483648 0x6C) = - 2147483648
   \<and> py_count_ls_bytereader (\<lambda>_. 0x6C) 0 (replicate 2147483648 0x6C) = - 2147483648
   \<and> py_count_ls_bytesio (replicate 2147483648 0x6C) = - 2147483648"
proof -
  let ?m = "\<lambda>_::int. (0x6C::byte)"
  let ?s = "replicate 2147483648 (0x6C::byte)"
  have at: "bytes_at ?m 0 ?s" by (rule bytes_at_const)
  have len63: "length ?s < 2 ^ 63" by simp
  have cnt: "count_list ?s 0x6C = 2147483648" by (simp add: count_list_replicate_eq)
  have "py_count_ls_bytereader_single ?m 0 ?s = - 2147483648"
    by (simp only: py_count_ls_bytereader_single_eq [OF at len63] cnt sint_two_31)
  moreover have "py_count_ls_bytereader ?m 0 ?s = - 2147483648"
    by (simp only: py_count_ls_bytereader_eq [OF at len63] cnt sint_two_31)
  moreover have "py_count_ls_bytesio ?s = - 2147483648"
    by (simp only: py_count_ls_bytesio_eq cnt sint_two_31)
  ultimately show ?thesis using at by (intro conjI)
qed

text \<open>
  Claim C10 as amended. For every input byte sequence \<open>s\<close> with fewer than \<open>2^31\<close> bytes
  equal to 0x6C, the count returned by each public counting entry point satisfies
  \<open>0 \<le> result \<le> len(s)\<close>. (A bytes object has fewer than \<open>2^63\<close> bytes.)
\<close>

theorem count_bounds:
  assumes "bytes_at m a s" and "length s < 2 ^ 63" and "count_list s 0x6C < 2 ^ 31"
  shows "0 \<le> py_count_ls_cdef m a s \<and> py_count_ls_cdef m a s \<le> int (length s)
       \<and> 0 \<le> py_count_ls_bytereader m a s \<and> py_count_ls_bytereader m a s \<le> int (length s)
       \<and> 0 \<le> py_count_ls_bytereader_single m a s
       \<and> py_count_ls_bytereader_single m a s \<le> int (length s)
       \<and> 0 \<le> py_count_ls_bytesio s \<and> py_count_ls_bytesio s \<le> int (length s)"
proof -
  have c: "sint (word_of_nat (count_list s 0x6C) :: cint) = int (count_list s 0x6C)"
    using assms(3) by (rule sint_of_nat_cint)
  have le: "int (count_list s 0x6C) \<le> int (length s)"
    using count_le_length [of s "0x6C"] by simp
  let ?n = "nat (sint (word_of_nat (length s) :: cint))"
  have "count_list (take ?n s) 0x6C \<le> length (take ?n s)" by (rule count_le_length)
  then have "int (count_list (take ?n s) 0x6C) \<le> int (length s)" by simp
  then have cdef: "0 \<le> py_count_ls_cdef m a s \<and> py_count_ls_cdef m a s \<le> int (length s)"
    by (simp add: py_count_ls_cdef_eq [OF assms(1)])
  from cdef le show ?thesis
    by (simp add: c py_count_ls_bytereader_eq [OF assms(1,2)]
        py_count_ls_bytereader_single_eq [OF assms(1,2)] py_count_ls_bytesio_eq)
qed

theorem count_bounds_witness:
  "bytes_at (\<lambda>a. if a = 2 \<or> a = 3 then 0x6C else 0x61) 0 [0x61, 0x61, 0x6C, 0x6C, 0x61]
   \<and> 0 \<le> py_count_ls_cdef (\<lambda>a. if a = 2 \<or> a = 3 then 0x6C else 0x61) 0
        [0x61, 0x61, 0x6C, 0x6C, 0x61]
   \<and> py_count_ls_cdef (\<lambda>a. if a = 2 \<or> a = 3 then 0x6C else 0x61) 0
        [0x61, 0x61, 0x6C, 0x6C, 0x61] \<le> 5
   \<and> 0 \<le> py_count_ls_bytesio [0x61, 0x61, 0x6C, 0x6C, 0x61]
   \<and> py_count_ls_bytesio [0x61, 0x61, 0x6C, 0x6C, 0x61] \<le> 5"
proof -
  let ?m = "\<lambda>a::int. if a = 2 \<or> a = 3 then 0x6C else (0x61::byte)"
  let ?s = "[0x61, 0x61, 0x6C, 0x6C, 0x61 :: byte]"
  have h1: "bytes_at ?m 0 ?s"
    by (simp add: bytes_at_def load_def upt_conv_Cons)
  have h2: "length ?s < 2 ^ 63" by simp
  have h3: "count_list ?s 0x6C < 2 ^ 31" by simp
  from count_bounds [OF h1 h2 h3] h1 show ?thesis by auto
qed

end
